theory Spec2Isabelle
  imports Complex_Main "HOL-Library.Monad_Syntax"
begin

section \<open>The fuzzy matching engine of the OFAC search extension\<close>

text \<open>
  This theory embeds \<^verbatim>\<open>utils/fuzzy-search.js\<close>: the Jaro and Jaro-Winkler similarity,
  the normaliser, the comparators for names, dates of birth and addresses, the match
  scorer and the search over the list of SDN entries.

  Conventions of the embedding.
  \<^item> A JavaScript string is a \<^typ>\<open>string\<close>; the characters are ASCII, and
    \<^verbatim>\<open>toLowerCase\<close> changes the letters A to Z only.
  \<^item> A property that may be \<^verbatim>\<open>undefined\<close> is a \<^typ>\<open>string option\<close>; a value is
    truthy when it is present and not the empty string.
  \<^item> A JavaScript number is a \<^typ>\<open>rat\<close> (an \<^typ>\<open>int\<close> where the code has rounded
    it): the arithmetic is exact, the rounding of IEEE doubles is not modelled.
  \<^item> The host's \<^verbatim>\<open>Date\<close> is a parameter of \<open>matchDOB\<close>: parsing a string that is
    not in the ISO format is left to the host by the language, and the getters read the
    date in the host's time zone.
  \<^item> A loop that has no bound of its own returns an \<^typ>\<open>'a option\<close>, with \<open>None\<close> for
    the run that never ends.
\<close>

subsection \<open>Strings\<close>

definition toLowerChar :: "char \<Rightarrow> char" where
  "toLowerChar c =
     (let n = (of_char c :: nat) in if 65 \<le> n \<and> n \<le> 90 then char_of (n + 32) else c)"

definition toLowerCase :: "string \<Rightarrow> string" where
  "toLowerCase s = map toLowerChar s"

text \<open>The character classes of the regular expressions: \<^verbatim>\<open>[a-z0-9]\<close>, \<^verbatim>\<open>\s\<close>, \<^verbatim>\<open>\d\<close>.\<close>

definition isDigit :: "char \<Rightarrow> bool" where
  "isDigit c = (let n = (of_char c :: nat) in 48 \<le> n \<and> n \<le> 57)"

definition isLowerAlnum :: "char \<Rightarrow> bool" where
  "isLowerAlnum c = (let n = (of_char c :: nat) in (97 \<le> n \<and> n \<le> 122) \<or> (48 \<le> n \<and> n \<le> 57))"

definition isSpace :: "char \<Rightarrow> bool" where
  "isSpace c = (let n = (of_char c :: nat) in n = 32 \<or> (9 \<le> n \<and> n \<le> 13))"

text \<open>\<^verbatim>\<open>.replace(/\s+/g, " ")\<close>: every maximal run of white space becomes one space.\<close>

fun collapseSpaces :: "string \<Rightarrow> string" where
  "collapseSpaces [] = []"
| "collapseSpaces (c # cs) =
     (if isSpace c then
        (case cs of
           [] \<Rightarrow> [CHR '' '']
         | c' # _ \<Rightarrow> if isSpace c' then collapseSpaces cs else CHR '' '' # collapseSpaces cs)
      else c # collapseSpaces cs)"

definition trim :: "string \<Rightarrow> string" where
  "trim s = rev (dropWhile isSpace (rev (dropWhile isSpace s)))"

definition truthy :: "string option \<Rightarrow> bool" where
  "truthy v = (case v of None \<Rightarrow> False | Some s \<Rightarrow> s \<noteq> [])"

definition normalizeName :: "string option \<Rightarrow> string" where
  "normalizeName name =
     (case name of
        None \<Rightarrow> []
      | Some s \<Rightarrow>
          if s = [] then []
          else trim (collapseSpaces
                 (map (\<lambda>c. if isLowerAlnum c \<or> isSpace c then c else CHR '' '')
                    (toLowerCase s))))"

text \<open>\<^verbatim>\<open>.replace(/\D/g, "")\<close>\<close>

definition digitsOnly :: "string \<Rightarrow> string" where
  "digitsOnly s = filter isDigit s"

subsection \<open>Date of birth\<close>

text \<open>
  What \<^verbatim>\<open>new Date(s)\<close> gives, read through \<^verbatim>\<open>getFullYear\<close>, \<^verbatim>\<open>getMonth\<close> and
  \<^verbatim>\<open>getDate\<close>; \<open>None\<close> when \<^verbatim>\<open>getTime()\<close> is \<^verbatim>\<open>NaN\<close>.
\<close>

record jsDate =
  getFullYear :: int
  getMonth :: int
  getDate :: int

type_synonym dateParser = "string \<Rightarrow> jsDate option"

text \<open>The body of the \<^verbatim>\<open>try\<close> block, on the two dates parsed.\<close>

definition parsedDatesEqual :: "jsDate option \<Rightarrow> jsDate option \<Rightarrow> bool" where
  "parsedDatesEqual search sdn =
     (case (search, sdn) of
        (Some search', Some sdn') \<Rightarrow>
          getFullYear search' = getFullYear sdn' \<and>
          getMonth search' = getMonth sdn' \<and>
          getDate search' = getDate sdn'
      | _ \<Rightarrow> False)"

definition matchDOB :: "dateParser \<Rightarrow> string option \<Rightarrow> string option \<Rightarrow> bool" where
  "matchDOB newDate searchDOB sdnDOB =
     (if \<not> truthy searchDOB \<or> \<not> truthy sdnDOB then False
      else case (searchDOB, sdnDOB) of
        (Some s, Some t) \<Rightarrow>
          let searchNums = digitsOnly s; sdnNums = digitsOnly t in
          if searchNums = sdnNums then True
          else parsedDatesEqual (newDate s) (newDate t)
      | _ \<Rightarrow> False)"


text \<open>
  A \<^verbatim>\<open>Date\<close> that rejects every string, as every host rejects a string without a
  digit. The examples use it on such strings, and where no string is parsed at all.
\<close>

definition newDateInvalid :: dateParser where
  "newDateInvalid s = None"

subsection \<open>Jaro similarity\<close>

record matchState =
  s1Matches :: "bool list"
  s2Matches :: "bool list"
  matches :: nat

text \<open>
  The inner loop over \<open>j\<close>, from \<open>start\<close> up to \<open>end\<close>: the index at which it breaks, or
  \<open>None\<close> when it runs to its end.
\<close>

function findMatch :: "string \<Rightarrow> string \<Rightarrow> nat \<Rightarrow> bool list \<Rightarrow> nat \<Rightarrow> nat \<Rightarrow> nat option" where
  "findMatch str1 str2 i s2M j end' =
     (if j < end' then
        (if s2M ! j \<or> str1 ! i \<noteq> str2 ! j then findMatch str1 str2 i s2M (j + 1) end'
         else Some j)
      else None)"
  by pat_completeness auto
termination
  by (relation "measure (\<lambda>(str1, str2, i, s2M, j, end'). end' - j)") auto

definition matchStep :: "string \<Rightarrow> string \<Rightarrow> int \<Rightarrow> nat \<Rightarrow> matchState \<Rightarrow> matchState" where
  "matchStep str1 str2 matchDistance i st =
     (let start = nat (max 0 (int i - matchDistance));
          end' = nat (min (int i + matchDistance + 1) (int (length str2)))
      in case findMatch str1 str2 i (s2Matches st) start end' of
           None \<Rightarrow> st
         | Some j \<Rightarrow>
             st\<lparr>s1Matches := (s1Matches st)[i := True],
                s2Matches := (s2Matches st)[j := True],
                matches := matches st + 1\<rparr>)"

function matchLoop :: "string \<Rightarrow> string \<Rightarrow> int \<Rightarrow> nat \<Rightarrow> matchState \<Rightarrow> matchState" where
  "matchLoop str1 str2 matchDistance i st =
     (if i < length str1
      then matchLoop str1 str2 matchDistance (i + 1) (matchStep str1 str2 matchDistance i st)
      else st)"
  by pat_completeness auto
termination
  by (relation "measure (\<lambda>(str1, str2, matchDistance, i, st). length str1 - i)") auto

text \<open>
  \<^verbatim>\<open>while (!s2Matches[k]) k++\<close>. Past the end of the array the read is \<^verbatim>\<open>undefined\<close>,
  its negation is true, and the loop never stops: that run is \<open>None\<close>.
\<close>

function skipUnmatched :: "bool list \<Rightarrow> nat \<Rightarrow> nat option" where
  "skipUnmatched s2M k =
     (if k < length s2M then (if s2M ! k then Some k else skipUnmatched s2M (k + 1))
      else None)"
  by pat_completeness auto
termination
  by (relation "measure (\<lambda>(s2M, k). length s2M - k)") auto

function transpositionLoop ::
  "string \<Rightarrow> string \<Rightarrow> bool list \<Rightarrow> bool list \<Rightarrow> nat \<Rightarrow> nat \<Rightarrow> nat \<Rightarrow> nat option" where
  "transpositionLoop str1 str2 s1M s2M i k transpositions =
     (if i < length str1 then
        (if \<not> s1M ! i then transpositionLoop str1 str2 s1M s2M (i + 1) k transpositions
         else case skipUnmatched s2M k of
                None \<Rightarrow> None
              | Some k' \<Rightarrow>
                  transpositionLoop str1 str2 s1M s2M (i + 1) (k' + 1)
                    (if str1 ! i \<noteq> str2 ! k' then transpositions + 1 else transpositions))
      else Some transpositions)"
  by pat_completeness auto
termination
  by (relation "measure (\<lambda>(str1, str2, s1M, s2M, i, k, t). length str1 - i)") auto

definition jaroSimilarity :: "string \<Rightarrow> string \<Rightarrow> rat option" where
  "jaroSimilarity s1 s2 =
     (if s1 = s2 then Some 1
      else if s1 = [] \<or> s2 = [] then Some 0
      else
        let str1 = toLowerCase s1;
            str2 = toLowerCase s2;
            len1 = length str1;
            len2 = length str2;
            matchDistance = int (max len1 len2 div 2) - 1;
            st = matchLoop str1 str2 matchDistance 0
                   \<lparr>s1Matches = replicate len1 False,
                    s2Matches = replicate len2 False,
                    matches = 0\<rparr>
        in if matches st = 0 then Some 0
           else do {
             transpositions \<leftarrow> transpositionLoop str1 str2 (s1Matches st) (s2Matches st) 0 0 0;
             Some ((of_nat (matches st) / of_nat len1 +
                    of_nat (matches st) / of_nat len2 +
                    (of_nat (matches st) - of_nat transpositions / 2) / of_nat (matches st)) / 3)
           })"

subsection \<open>Jaro-Winkler similarity\<close>

function prefixLoop :: "string \<Rightarrow> string \<Rightarrow> nat \<Rightarrow> nat \<Rightarrow> nat \<Rightarrow> nat" where
  "prefixLoop str1 str2 maxPrefix i prefix =
     (if i < maxPrefix then
        (if str1 ! i = str2 ! i then prefixLoop str1 str2 maxPrefix (i + 1) (prefix + 1)
         else prefix)
      else prefix)"
  by pat_completeness auto
termination
  by (relation "measure (\<lambda>(str1, str2, maxPrefix, i, prefix). maxPrefix - i)") auto

definition jaroWinkler :: "string \<Rightarrow> string \<Rightarrow> rat \<Rightarrow> rat option" where
  "jaroWinkler s1 s2 p =
     (if s1 = s2 then Some 1
      else if s1 = [] \<or> s2 = [] then Some 0
      else do {
        jaroScore \<leftarrow> jaroSimilarity s1 s2;
        let str1 = toLowerCase s1;
            str2 = toLowerCase s2;
            maxPrefix = min 4 (min (length str1) (length str2));
            prefix = prefixLoop str1 str2 maxPrefix 0 0
        in Some (jaroScore + of_nat prefix * p * (1 - jaroScore))
      })"

text \<open>The scaling factor of a call that gives none.\<close>

definition defaultP :: rat where
  "defaultP = 1 / 10"

subsection \<open>Names and addresses\<close>

text \<open>\<^verbatim>\<open>Math.round\<close>: the nearest integer, a half going up.\<close>

definition Math_round :: "rat \<Rightarrow> int" where
  "Math_round x = \<lfloor>x + 1 / 2\<rfloor>"

record nameObj =
  firstName :: "string option"
  middleName :: "string option"
  lastName :: "string option"

definition calculateNameSimilarity :: "nameObj \<Rightarrow> nameObj \<Rightarrow> int option" where
  "calculateNameSimilarity searchName sdnName =
     (let searchFirst = normalizeName (nameObj.firstName searchName);
          searchMiddle = normalizeName (nameObj.middleName searchName);
          searchLast = normalizeName (nameObj.lastName searchName);
          sdnFirst = normalizeName (nameObj.firstName sdnName);
          sdnMiddle = normalizeName (nameObj.middleName sdnName);
          sdnLast = normalizeName (nameObj.lastName sdnName)
      in do {
        lastScore \<leftarrow> (if searchLast \<noteq> [] \<and> sdnLast \<noteq> []
                      then jaroWinkler searchLast sdnLast defaultP else Some 0);
        firstScore \<leftarrow> (if searchFirst \<noteq> [] \<and> sdnFirst \<noteq> []
                       then jaroWinkler searchFirst sdnFirst defaultP else Some 0);
        middleScore \<leftarrow> (if searchMiddle \<noteq> [] \<and> sdnMiddle \<noteq> []
                        then map_option Some (jaroWinkler searchMiddle sdnMiddle defaultP)
                        else if searchMiddle = [] \<or> sdnMiddle = [] then Some None
                        else Some (Some 0));
        let (weightedScore, totalWeight) = (0 :: rat, 0 :: rat);
            (weightedScore, totalWeight) =
              (if searchLast \<noteq> []
               then (weightedScore + lastScore * (1 / 2), totalWeight + 1 / 2)
               else (weightedScore, totalWeight));
            (weightedScore, totalWeight) =
              (if searchFirst \<noteq> []
               then (weightedScore + firstScore * (35 / 100), totalWeight + 35 / 100)
               else (weightedScore, totalWeight));
            (weightedScore, totalWeight) =
              (case middleScore of
                 Some m \<Rightarrow> (weightedScore + m * (15 / 100), totalWeight + 15 / 100)
               | None \<Rightarrow> (weightedScore, totalWeight));
            finalScore = (if totalWeight > 0 then (weightedScore / totalWeight) * 100 else 0)
        in Some (Math_round finalScore)
      })"

record addressObj =
  address :: "string option"
  city :: "string option"
  state :: "string option"
  country :: "string option"

text \<open>One field of the address: what it adds to the total, and whether it was compared.\<close>

definition addressField :: "string option \<Rightarrow> string option \<Rightarrow> rat \<Rightarrow> (rat \<times> nat) option" where
  "addressField searchField sdnField weight =
     (if truthy searchField \<and> truthy sdnField
      then do {
        fieldScore \<leftarrow> jaroWinkler (normalizeName searchField) (normalizeName sdnField) defaultP;
        Some (fieldScore * weight, 1)
      }
      else Some (0, 0))"

definition calculateAddressSimilarity :: "addressObj option \<Rightarrow> addressObj option \<Rightarrow> int option" where
  "calculateAddressSimilarity searchAddr sdnAddr =
     (case (searchAddr, sdnAddr) of
        (Some search, Some sdn) \<Rightarrow> do {
          (countryScore, countryField) \<leftarrow>
             addressField (addressObj.country search) (addressObj.country sdn) 40;
          (stateScore, stateField) \<leftarrow>
             addressField (addressObj.state search) (addressObj.state sdn) 20;
          (cityScore, cityField) \<leftarrow>
             addressField (addressObj.city search) (addressObj.city sdn) 25;
          (streetScore, streetField) \<leftarrow>
             addressField (addressObj.address search) (addressObj.address sdn) 15;
          let totalScore = 0 + countryScore + stateScore + cityScore + streetScore;
              fields = 0 + countryField + stateField + cityField + streetField
          in Some (if fields > 0 then Math_round totalScore else 0)
        }
      | _ \<Rightarrow> Some 0)"

subsection \<open>The match scorer\<close>

record idObj =
  type :: string
  number :: "string option"

record searchParams =
  firstName :: "string option"
  middleName :: "string option"
  lastName :: "string option"
  dob :: "string option"
  idNumber :: "string option"
  address :: "string option"
  city :: "string option"
  state :: "string option"
  country :: "string option"

record sdnEntry =
  firstName :: "string option"
  middleName :: "string option"
  lastName :: "string option"
  dob :: "string option"
  address :: "string option"
  city :: "string option"
  state :: "string option"
  country :: "string option"
  ids :: "idObj list option"

record matchResult =
  score :: int
  nameScore :: int
  dobMatch :: bool
  addressScore :: int
  idMatch :: bool
  details :: "string list"

text \<open>\<^verbatim>\<open>id.number?.replace(/\D/g, "") || ""\<close>\<close>

definition normalizedSdnId :: "idObj \<Rightarrow> string" where
  "normalizedSdnId id' = (case number id' of None \<Rightarrow> [] | Some n \<Rightarrow> digitsOnly n)"

text \<open>The loop over the identifiers of the entry: the first one whose digits are those of the query.\<close>

fun idLoop :: "string \<Rightarrow> idObj list \<Rightarrow> idObj option" where
  "idLoop normalizedSearchId [] = None"
| "idLoop normalizedSearchId (id' # rest) =
     (if normalizedSearchId = normalizedSdnId id' then Some id'
      else idLoop normalizedSearchId rest)"

text \<open>The object literals that \<open>calculateMatchScore\<close> passes on.\<close>

definition searchNameObj :: "searchParams \<Rightarrow> nameObj" where
  "searchNameObj params =
     \<lparr>nameObj.firstName = searchParams.firstName params,
      nameObj.middleName = searchParams.middleName params,
      nameObj.lastName = searchParams.lastName params\<rparr>"

definition sdnNameObj :: "sdnEntry \<Rightarrow> nameObj" where
  "sdnNameObj entry =
     \<lparr>nameObj.firstName = sdnEntry.firstName entry,
      nameObj.middleName = sdnEntry.middleName entry,
      nameObj.lastName = sdnEntry.lastName entry\<rparr>"

definition searchAddrObj :: "searchParams \<Rightarrow> addressObj" where
  "searchAddrObj params =
     \<lparr>addressObj.address = searchParams.address params,
      addressObj.city = searchParams.city params,
      addressObj.state = searchParams.state params,
      addressObj.country = searchParams.country params\<rparr>"

definition sdnAddrObj :: "sdnEntry \<Rightarrow> addressObj" where
  "sdnAddrObj entry =
     \<lparr>addressObj.address = sdnEntry.address entry,
      addressObj.city = sdnEntry.city entry,
      addressObj.state = sdnEntry.state entry,
      addressObj.country = sdnEntry.country entry\<rparr>"

definition calculateMatchScore :: "dateParser \<Rightarrow> searchParams \<Rightarrow> sdnEntry \<Rightarrow> matchResult option" where
  "calculateMatchScore newDate params entry = do {
     nameScore' \<leftarrow> calculateNameSimilarity (searchNameObj params) (sdnNameObj entry);
     let dobMatch' =
           (if truthy (searchParams.dob params)
            then matchDOB newDate (searchParams.dob params) (sdnEntry.dob entry) else False);
     let details' = (if dobMatch' then [''Date of birth matches''] else []);
     addressScore' \<leftarrow>
        (if truthy (searchParams.country params) \<or> truthy (searchParams.city params) \<or>
            truthy (searchParams.state params)
         then calculateAddressSimilarity (Some (searchAddrObj params)) (Some (sdnAddrObj entry))
         else Some 0);
     let found =
           (case (searchParams.idNumber params, ids entry) of
              (Some idNumber', Some ids') \<Rightarrow>
                if idNumber' \<noteq> [] then idLoop (digitsOnly idNumber') ids' else None
            | _ \<Rightarrow> None);
         idMatch' = (found \<noteq> None);
         details' =
           (case found of
              Some id' \<Rightarrow> details' @ [''ID number matches ('' @ type id' @ '')'']
            | None \<Rightarrow> details');
         overallScore = of_int nameScore' * (6 / 10);
         overallScore = (if dobMatch' then overallScore + 20 else overallScore);
         overallScore = overallScore + of_int addressScore' * (15 / 100);
         overallScore = (if idMatch' then overallScore + 5 else overallScore)
     in Some \<lparr>score = min 100 (Math_round overallScore),
               nameScore = nameScore',
               dobMatch = dobMatch',
               addressScore = addressScore',
               idMatch = idMatch',
               details = details'\<rparr>
   }"

subsection \<open>The search\<close>

record searchMatch = matchResult +
  entry :: sdnEntry

definition withEntry :: "sdnEntry \<Rightarrow> matchResult \<Rightarrow> searchMatch" where
  "withEntry e r =
     \<lparr>score = score r, nameScore = nameScore r, dobMatch = dobMatch r,
      addressScore = addressScore r, idMatch = idMatch r, details = details r, entry = e\<rparr>"

fun searchLoop ::
  "dateParser \<Rightarrow> searchParams \<Rightarrow> sdnEntry list \<Rightarrow> rat \<Rightarrow> searchMatch list \<Rightarrow> searchMatch list option" where
  "searchLoop newDate params [] threshold matches' = Some matches'"
| "searchLoop newDate params (e # rest) threshold matches' = do {
     matchResult \<leftarrow> calculateMatchScore newDate params e;
     searchLoop newDate params rest threshold
       (if of_int (score matchResult) \<ge> threshold then matches' @ [withEntry e matchResult]
        else matches')
   }"

text \<open>
  \<^verbatim>\<open>matches.sort((a, b) => b.score - a.score)\<close>: the sort of the language is stable, and
  the comparison puts the greater score first.
\<close>

definition searchSDN ::
  "dateParser \<Rightarrow> searchParams \<Rightarrow> sdnEntry list \<Rightarrow> rat \<Rightarrow> searchMatch list option" where
  "searchSDN newDate params sdnEntries threshold = do {
     matches' \<leftarrow> searchLoop newDate params sdnEntries threshold [];
     Some (sort_key (\<lambda>m. - score m) matches')
   }"

section \<open>Notions used in the proofs\<close>

text \<open>
  Position \<open>i\<close> of the first string and position \<open>j\<close> of the second can be matched:
  both exist, they hold the same character, and \<open>j\<close> is in the window of \<open>i\<close>.
\<close>

definition compatible :: "string \<Rightarrow> string \<Rightarrow> int \<Rightarrow> nat \<Rightarrow> nat \<Rightarrow> bool" where
  "compatible a b d i j =
     (i < length a \<and> j < length b \<and> a ! i = b ! j \<and> int i - d \<le> int j \<and> int j \<le> int i + d)"

text \<open>A set of pairs of positions that uses no position twice.\<close>

definition pairing :: "(nat \<times> nat) set \<Rightarrow> bool" where
  "pairing M =
     ((\<forall>i j j'. (i, j) \<in> M \<longrightarrow> (i, j') \<in> M \<longrightarrow> j = j') \<and>
      (\<forall>i i' j. (i, j) \<in> M \<longrightarrow> (i', j) \<in> M \<longrightarrow> i = i'))"

text \<open>
  What the matching loop has built when it has handled the positions below \<open>n\<close> of the
  first string: a pairing of compatible positions in which every compatible pair
  \<open>(i, j)\<close> with \<open>i < n\<close> is matched, or has \<open>i\<close> matched to an earlier \<open>j\<close>, or has
  \<open>j\<close> matched to an earlier \<open>i\<close>.
\<close>

definition firstFit :: "string \<Rightarrow> string \<Rightarrow> int \<Rightarrow> nat \<Rightarrow> (nat \<times> nat) set \<Rightarrow> bool" where
  "firstFit a b d n M =
     (pairing M \<and>
      (\<forall>i j. (i, j) \<in> M \<longrightarrow> compatible a b d i j \<and> i < n) \<and>
      (\<forall>i j. i < n \<longrightarrow> compatible a b d i j \<longrightarrow>
         (i, j) \<in> M \<or> (\<exists>j'<j. (i, j') \<in> M) \<or> (\<exists>i'<i. (i', j) \<in> M)))"

text \<open>The flags and the counter of the state record the pairing \<open>M\<close>.\<close>

definition tracks :: "matchState \<Rightarrow> string \<Rightarrow> string \<Rightarrow> (nat \<times> nat) set \<Rightarrow> bool" where
  "tracks st a b M =
     (length (s1Matches st) = length a \<and> length (s2Matches st) = length b \<and>
      (\<forall>i<length a. s1Matches st ! i = (i \<in> Domain M)) \<and>
      (\<forall>j<length b. s2Matches st ! j = (j \<in> Range M)) \<and>
      finite M \<and> matches st = card M)"

text \<open>The match distance and the first state of the matching loop, as \<open>jaroSimilarity\<close> sets them.\<close>

definition matchDistanceOf :: "string \<Rightarrow> string \<Rightarrow> int" where
  "matchDistanceOf a b = int (max (length a) (length b) div 2) - 1"

definition initialState :: "string \<Rightarrow> string \<Rightarrow> matchState" where
  "initialState a b =
     \<lparr>s1Matches = replicate (length a) False, s2Matches = replicate (length b) False,
      matches = 0\<rparr>"

text \<open>The positions from \<open>k\<close> on whose flag is set, in order.\<close>

definition matchedFrom :: "bool list \<Rightarrow> nat \<Rightarrow> nat list" where
  "matchedFrom fs k = filter (\<lambda>j. fs ! j) [k..<length fs]"

text \<open>The number of places at which two lists differ.\<close>

definition mismatches :: "'a list \<Rightarrow> 'a list \<Rightarrow> nat" where
  "mismatches xs ys = length (filter (\<lambda>(x, y). x \<noteq> y) (zip xs ys))"

text \<open>The value \<open>jaroSimilarity\<close> returns for \<open>m\<close> matches and \<open>t\<close> transpositions.\<close>

definition jaroValue :: "nat \<Rightarrow> nat \<Rightarrow> nat \<Rightarrow> nat \<Rightarrow> rat" where
  "jaroValue m t len1 len2 =
     (of_nat m / of_nat len1 + of_nat m / of_nat len2 + (of_nat m - of_nat t / 2) / of_nat m) / 3"

text \<open>The characters matched in the two strings, compared in order.\<close>

definition transposed :: "string \<Rightarrow> string \<Rightarrow> matchState \<Rightarrow> nat" where
  "transposed a b st =
     mismatches (map ((!) a) (matchedFrom (s1Matches st) 0))
                (map ((!) b) (matchedFrom (s2Matches st) 0))"

text \<open>
  The name-part comparator of the specification, on normalised parts: 0 when either
  side is empty, the similarity function otherwise.
\<close>

definition partSimilarity :: "string \<Rightarrow> string \<Rightarrow> rat option" where
  "partSimilarity a b = (if a = [] \<or> b = [] then Some 0 else jaroWinkler a b defaultP)"


text \<open>The condition under which \<open>calculateMatchScore\<close> compares addresses.\<close>

definition addressGate :: "searchParams \<Rightarrow> bool" where
  "addressGate params =
     (truthy (searchParams.country params) \<or> truthy (searchParams.city params) \<or>
      truthy (searchParams.state params))"

text \<open>The weighted sum that \<open>calculateMatchScore\<close> rounds.\<close>

definition overallFormula :: "int \<Rightarrow> bool \<Rightarrow> int \<Rightarrow> bool \<Rightarrow> rat" where
  "overallFormula nameScore' dobMatch' addressScore' idMatch' =
     of_int nameScore' * (6 / 10) + (if dobMatch' then 20 else 0) +
     of_int addressScore' * (15 / 100) + (if idMatch' then 5 else 0)"

text \<open>
  The identifier comparator of the specification: the query has an identifier, the entry
  has a list of identifiers, and one of them has the digits of the query's.
\<close>

definition identifierMatches :: "searchParams \<Rightarrow> sdnEntry \<Rightarrow> bool" where
  "identifierMatches params e =
     (case (idNumber params, ids e) of
        (Some n, Some ids') \<Rightarrow> n \<noteq> [] \<and> digitsOnly n \<in> set (map normalizedSdnId ids')
      | _ \<Rightarrow> False)"

text \<open>A match of the search carries its entry and the result the scorer gives for it.\<close>

definition scoredAs :: "dateParser \<Rightarrow> searchParams \<Rightarrow> sdnEntry \<Rightarrow> searchMatch \<Rightarrow> bool" where
  "scoredAs newDate params e m =
     (calculateMatchScore newDate params e = Some (matchResult.truncate m) \<and> entry m = e)"

text \<open>A query and three entries.\<close>

definition johnSmith :: searchParams where
  "johnSmith =
     \<lparr>searchParams.firstName = Some ''John'', searchParams.middleName = None,
      searchParams.lastName = Some ''Smith'', searchParams.dob = Some ''1975-01-01'',
      idNumber = Some ''A-123'', searchParams.address = Some ''1 Main St'',
      searchParams.city = Some ''Springfield'', searchParams.state = None,
      searchParams.country = Some ''US''\<rparr>"

definition jonSmith :: sdnEntry where
  "jonSmith =
     \<lparr>sdnEntry.firstName = Some ''Jon'', sdnEntry.middleName = None,
      sdnEntry.lastName = Some ''Smith'', sdnEntry.dob = Some ''1975/01/01'',
      sdnEntry.address = Some ''1 Main St'', sdnEntry.city = Some ''Springfield'',
      sdnEntry.state = None, sdnEntry.country = Some ''US'',
      ids = Some [\<lparr>type = ''Passport'', number = Some ''123''\<rparr>]\<rparr>"

definition johnSmyth :: sdnEntry where
  "johnSmyth =
     \<lparr>sdnEntry.firstName = Some ''John'', sdnEntry.middleName = None,
      sdnEntry.lastName = Some ''Smyth'', sdnEntry.dob = Some ''1975/01/01'',
      sdnEntry.address = Some ''1 Main St'', sdnEntry.city = Some ''Springfield'',
      sdnEntry.state = None, sdnEntry.country = Some ''US'',
      ids = Some [\<lparr>type = ''Passport'', number = Some ''123''\<rparr>]\<rparr>"

definition aliceJones :: sdnEntry where
  "aliceJones =
     \<lparr>sdnEntry.firstName = Some ''Alice'', sdnEntry.middleName = None,
      sdnEntry.lastName = Some ''Jones'', sdnEntry.dob = None,
      sdnEntry.address = None, sdnEntry.city = None,
      sdnEntry.state = None, sdnEntry.country = None, ids = Some []\<rparr>"

definition johnSmithStreetOnly :: searchParams where
  "johnSmithStreetOnly =
     johnSmith\<lparr>searchParams.city := None, searchParams.country := Some []\<rparr>"

section \<open>The matching loop\<close>

declare findMatch.simps [simp del] matchLoop.simps [simp del] skipUnmatched.simps [simp del]
  transpositionLoop.simps [simp del] prefixLoop.simps [simp del]

lemma findMatch_Some:
  "findMatch str1 str2 i s2M j e = Some r \<Longrightarrow>
     j \<le> r \<and> r < e \<and> \<not> s2M ! r \<and> str1 ! i = str2 ! r \<and>
     (\<forall>r'. j \<le> r' \<and> r' < r \<longrightarrow> s2M ! r' \<or> str1 ! i \<noteq> str2 ! r')"
proof (induction str1 str2 i s2M j e rule: findMatch.induct)
  case (1 str1 str2 i s2M j e)
  show ?case
  proof (cases "j < e")
    case False
    with "1.prems" show ?thesis
      by (simp add: findMatch.simps)
  next
    case inside: True
    show ?thesis
    proof (cases "s2M ! j \<or> str1 ! i \<noteq> str2 ! j")
      case True
      with inside "1.prems" have "findMatch str1 str2 i s2M (j + 1) e = Some r"
        by (subst (asm) findMatch.simps) simp
      from "1.IH" [OF inside True this] have
        ih: "j + 1 \<le> r" "r < e" "\<not> s2M ! r" "str1 ! i = str2 ! r"
          "\<forall>r'. j + 1 \<le> r' \<and> r' < r \<longrightarrow> s2M ! r' \<or> str1 ! i \<noteq> str2 ! r'"
        by auto
      have "s2M ! r' \<or> str1 ! i \<noteq> str2 ! r'" if "j \<le> r'" "r' < r" for r'
      proof (cases "r' = j")
        case True
        with \<open>s2M ! j \<or> str1 ! i \<noteq> str2 ! j\<close> show ?thesis by simp
      next
        case False
        with that have "j + 1 \<le> r'" by simp
        with ih(5) that show ?thesis by blast
      qed
      with ih show ?thesis by auto
    next
      case False
      with inside "1.prems" have "r = j"
        by (subst (asm) findMatch.simps) simp
      with inside False show ?thesis by auto
    qed
  qed
qed

lemma findMatch_None:
  "findMatch str1 str2 i s2M j e = None \<Longrightarrow> j \<le> r' \<Longrightarrow> r' < e \<Longrightarrow>
     s2M ! r' \<or> str1 ! i \<noteq> str2 ! r'"
proof (induction str1 str2 i s2M j e rule: findMatch.induct)
  case (1 str1 str2 i s2M j e)
  from "1.prems" have inside: "j < e" by simp
  show ?case
  proof (cases "s2M ! j \<or> str1 ! i \<noteq> str2 ! j")
    case True
    with inside "1.prems" have rest: "findMatch str1 str2 i s2M (j + 1) e = None"
      by (subst (asm) findMatch.simps) simp
    show ?thesis
    proof (cases "r' = j")
      case True
      with \<open>s2M ! j \<or> str1 ! i \<noteq> str2 ! j\<close> show ?thesis by simp
    next
      case False
      with "1.prems" have "j + 1 \<le> r'" by simp
      from "1.IH" [OF inside True rest this "1.prems"(3)] show ?thesis .
    qed
  next
    case False
    with inside "1.prems" show ?thesis
      by (subst (asm) findMatch.simps) simp
  qed
qed

text \<open>
  A first-fit pairing of two strings is unique, and its converse is the first-fit
  pairing of the strings in the other order.
\<close>

lemma compatible_sym: "compatible a b d i j = compatible b a d j i"
  by (auto simp add: compatible_def)

lemma firstFit_unique:
  assumes M: "firstFit a b d n M" and N: "firstFit a b d n N"
  shows "M = N"
proof -
  have "((i, j) \<in> M) = ((i, j) \<in> N)" if "i + j = k" for i j k
    using that
  proof (induction k arbitrary: i j rule: less_induct)
    case (less k)
    have one: "(i, j) \<in> Q" if P: "firstFit a b d n P" and Q: "firstFit a b d n Q"
      and ih: "\<And>i' j'. i' + j' < k \<Longrightarrow> ((i', j') \<in> P) = ((i', j') \<in> Q)"
      and mem: "(i, j) \<in> P" for P Q
    proof -
      from P mem have c: "compatible a b d i j" "i < n"
        by (auto simp add: firstFit_def)
      with Q consider "(i, j) \<in> Q" | j' where "j' < j" "(i, j') \<in> Q"
        | i' where "i' < i" "(i', j) \<in> Q"
        unfolding firstFit_def by blast
      then show ?thesis
      proof cases
        case 1
        then show ?thesis .
      next
        case 2
        with less.prems have "i + j' < k" by simp
        with ih 2 have "(i, j') \<in> P" by blast
        with P mem have "j' = j"
          unfolding firstFit_def pairing_def by blast
        with 2 show ?thesis by simp
      next
        case 3
        with less.prems have "i' + j < k" by simp
        with ih 3 have "(i', j) \<in> P" by blast
        with P mem have "i' = i"
          unfolding firstFit_def pairing_def by blast
        with 3 show ?thesis by simp
      qed
    qed
    show ?case
    proof
      assume "(i, j) \<in> M"
      with one [OF M N] less.IH show "(i, j) \<in> N" by blast
    next
      assume "(i, j) \<in> N"
      with one [OF N M] less.IH show "(i, j) \<in> M" by blast
    qed
  qed
  then show ?thesis by auto
qed

lemma firstFit_converse:
  assumes "firstFit a b d (length a) M"
  shows "firstFit b a d (length b) (M\<inverse>)"
proof -
  from assms have p: "pairing M"
    and c: "\<And>i j. (i, j) \<in> M \<Longrightarrow> compatible a b d i j"
    and g: "\<And>i j. compatible a b d i j \<Longrightarrow>
         (i, j) \<in> M \<or> (\<exists>j'<j. (i, j') \<in> M) \<or> (\<exists>i'<i. (i', j) \<in> M)"
    by (auto simp add: firstFit_def compatible_def)
  from p have "pairing (M\<inverse>)"
    unfolding pairing_def by blast
  moreover have "compatible b a d j i \<and> j < length b" if "(j, i) \<in> M\<inverse>" for i j
    using that c [of i j] by (simp add: compatible_sym [of b a] compatible_def)
  moreover have "(j, i) \<in> M\<inverse> \<or> (\<exists>i'<i. (j, i') \<in> M\<inverse>) \<or> (\<exists>j'<j. (j', i) \<in> M\<inverse>)"
    if "compatible b a d j i" for i j
    using that g [of i j] by (auto simp add: compatible_sym [of b a])
  ultimately show ?thesis
    unfolding firstFit_def by blast
qed

lemma matchStep_firstFit:
  assumes ff: "firstFit a b d i M" and tr: "tracks st a b M"
    and i: "i < length a" and d: "- 1 \<le> d"
  shows "\<exists>M'. firstFit a b d (i + 1) M' \<and> tracks (matchStep a b d i st) a b M'"
proof -
  define start where "start = nat (max 0 (int i - d))"
  define end' where "end' = nat (min (int i + d + 1) (int (length b)))"
  from ff have p: "pairing M"
    and c: "\<And>x y. (x, y) \<in> M \<Longrightarrow> compatible a b d x y \<and> x < i"
    and g: "\<And>x y. x < i \<Longrightarrow> compatible a b d x y \<Longrightarrow>
         (x, y) \<in> M \<or> (\<exists>y'<y. (x, y') \<in> M) \<or> (\<exists>x'<x. (x', y) \<in> M)"
    unfolding firstFit_def by blast+
  from tr have len: "length (s1Matches st) = length a" "length (s2Matches st) = length b"
    and f1: "\<And>x. x < length a \<Longrightarrow> s1Matches st ! x = (x \<in> Domain M)"
    and f2: "\<And>y. y < length b \<Longrightarrow> s2Matches st ! y = (y \<in> Range M)"
    and fin: "finite M" and cnt: "matches st = card M"
    unfolding tracks_def by blast+
  have window: "start \<le> y \<and> y < end'" if "compatible a b d i y" for y
    using that d by (auto simp add: compatible_def start_def end'_def)
  have taken: "\<exists>x'<i. (x', y) \<in> M" if "compatible a b d i y" "s2Matches st ! y" for y
  proof -
    from that have "y \<in> Range M"
      using f2 [of y] by (simp add: compatible_def)
    then obtain x' where "(x', y) \<in> M" by blast
    with c [of x' y] show ?thesis by blast
  qed
  show ?thesis
  proof (cases "findMatch a b i (s2Matches st) start end'")
    case None
    then have same: "matchStep a b d i st = st"
      by (simp add: matchStep_def start_def end'_def)
    have "(x, y) \<in> M \<or> (\<exists>y'<y. (x, y') \<in> M) \<or> (\<exists>x'<x. (x', y) \<in> M)"
      if "x < i + 1" "compatible a b d x y" for x y
    proof (cases "x = i")
      case True
      with that window [of y] have "start \<le> y" "y < end'" by simp_all
      from findMatch_None [OF None this] that True have "s2Matches st ! y"
        by (simp add: compatible_def)
      with taken [of y] that True show ?thesis by blast
    next
      case False
      with that have "x < i" by simp
      with g that show ?thesis by blast
    qed
    moreover have "compatible a b d x y \<and> x < i + 1" if "(x, y) \<in> M" for x y
      using c [OF that] by simp
    ultimately have "firstFit a b d (i + 1) M"
      using p unfolding firstFit_def by blast
    with tr same show ?thesis by auto
  next
    case (Some j)
    then have step: "matchStep a b d i st =
        st\<lparr>s1Matches := (s1Matches st)[i := True], s2Matches := (s2Matches st)[j := True],
           matches := matches st + 1\<rparr>"
      by (simp add: matchStep_def start_def end'_def)
    from findMatch_Some [OF Some] have j: "start \<le> j" "j < end'" "\<not> s2Matches st ! j"
      "a ! i = b ! j"
      and first: "\<And>y. start \<le> y \<Longrightarrow> y < j \<Longrightarrow> s2Matches st ! y \<or> a ! i \<noteq> b ! y"
      by blast+
    from j(2) have jb: "j < length b"
      by (simp add: end'_def)
    from j(1,2) d have win: "int i - d \<le> int j" "int j \<le> int i + d"
      by (auto simp add: start_def end'_def)
    with i jb j(4) have cij: "compatible a b d i j"
      by (simp add: compatible_def)
    from j(3) jb f2 have jfree: "j \<notin> Range M" by simp
    from c have ifree: "i \<notin> Domain M" by blast
    define M' where "M' = insert (i, j) M"
    have p': "pairing M'"
      using p jfree ifree unfolding pairing_def M'_def by blast
    have c': "compatible a b d x y \<and> x < i + 1" if "(x, y) \<in> M'" for x y
      using that c [of x y] cij by (auto simp add: M'_def)
    have g': "(x, y) \<in> M' \<or> (\<exists>y'<y. (x, y') \<in> M') \<or> (\<exists>x'<x. (x', y) \<in> M')"
      if "x < i + 1" "compatible a b d x y" for x y
    proof (cases "x = i")
      case False
      with that have "x < i" by simp
      from g [OF this that(2)] show ?thesis
        unfolding M'_def by blast
    next
      case True
      consider "y < j" | "y = j" | "j < y" by linarith
      then show ?thesis
      proof cases
        case 1
        from window [of y] that True have "start \<le> y" by simp
        from first [OF this 1] that True have "s2Matches st ! y"
          by (simp add: compatible_def)
        with taken [of y] that True show ?thesis
          unfolding M'_def by blast
      next
        case 2
        with True show ?thesis by (simp add: M'_def)
      next
        case 3
        with True show ?thesis unfolding M'_def by blast
      qed
    qed
    have ff': "firstFit a b d (i + 1) M'"
      using p' c' g' unfolding firstFit_def by blast
    have "(i, j) \<notin> M" using ifree by blast
    with fin have card': "card M' = card M + 1"
      by (simp add: M'_def)
    have d1: "((s1Matches st)[i := True]) ! x = (x \<in> Domain M')" if "x < length a" for x
    proof (cases "x = i")
      case True
      with that len show ?thesis by (auto simp add: M'_def)
    next
      case False
      then have "(x \<in> Domain M') = (x \<in> Domain M)" by (auto simp add: M'_def)
      with False f1 [OF that] show ?thesis by simp
    qed
    have d2: "((s2Matches st)[j := True]) ! y = (y \<in> Range M')" if "y < length b" for y
    proof (cases "y = j")
      case True
      with that len show ?thesis by (auto simp add: M'_def)
    next
      case False
      then have "(y \<in> Range M') = (y \<in> Range M)" by (auto simp add: M'_def)
      with False f2 [OF that] show ?thesis by simp
    qed
    have "tracks (matchStep a b d i st) a b M'"
      unfolding tracks_def step using len d1 d2 fin card' cnt
      by (simp add: M'_def)
    with ff' show ?thesis by blast
  qed
qed

lemma matchLoop_firstFit:
  "firstFit a b d i M \<Longrightarrow> tracks st a b M \<Longrightarrow> i \<le> length a \<Longrightarrow> - 1 \<le> d \<Longrightarrow>
     \<exists>M'. firstFit a b d (length a) M' \<and> tracks (matchLoop a b d i st) a b M'"
proof (induction a b d i st arbitrary: M rule: matchLoop.induct)
  case (1 a b d i st)
  show ?case
  proof (cases "i < length a")
    case True
    from matchStep_firstFit [OF "1.prems"(1,2) True "1.prems"(4)] obtain M'
      where "firstFit a b d (i + 1) M'" "tracks (matchStep a b d i st) a b M'"
      by blast
    from "1.IH" [OF True this] True "1.prems"(4) show ?thesis
      by (subst matchLoop.simps) simp
  next
    case False
    with "1.prems" have "i = length a" by simp
    with "1.prems" False show ?thesis
      by (subst matchLoop.simps) auto
  qed
qed

lemma matchLoop_result:
  assumes "- 1 \<le> d"
  shows "\<exists>M. firstFit a b d (length a) M \<and> tracks (matchLoop a b d 0 (initialState a b)) a b M"
proof -
  have "firstFit a b d 0 {}"
    by (simp add: firstFit_def pairing_def)
  moreover have "tracks (initialState a b) a b {}"
    by (simp add: tracks_def initialState_def)
  ultimately show ?thesis
    using matchLoop_firstFit [of a b d 0 "{}" "initialState a b"] assms by simp
qed

lemma matchLoop_swap:
  assumes "- 1 \<le> d"
  shows "s1Matches (matchLoop b a d 0 (initialState b a)) =
           s2Matches (matchLoop a b d 0 (initialState a b)) \<and>
         s2Matches (matchLoop b a d 0 (initialState b a)) =
           s1Matches (matchLoop a b d 0 (initialState a b)) \<and>
         matches (matchLoop b a d 0 (initialState b a)) =
           matches (matchLoop a b d 0 (initialState a b))"
proof -
  from matchLoop_result [OF assms, of a b] obtain M
    where M: "firstFit a b d (length a) M" "tracks (matchLoop a b d 0 (initialState a b)) a b M"
    by blast
  from matchLoop_result [OF assms, of b a] obtain N
    where N: "firstFit b a d (length b) N" "tracks (matchLoop b a d 0 (initialState b a)) b a N"
    by blast
  from firstFit_unique [OF firstFit_converse [OF M(1)] N(1)] have N_eq: "N = M\<inverse>" by simp
  have dr: "Domain (M\<inverse>) = Range M" "Range (M\<inverse>) = Domain M" by auto
  from M(2) N(2) show ?thesis
    unfolding tracks_def N_eq dr
    by (auto intro!: nth_equalityI)
qed

section \<open>The transposition loop\<close>

lemma matchedFrom_step:
  "k < length fs \<Longrightarrow>
     matchedFrom fs k = (if fs ! k then k # matchedFrom fs (k + 1) else matchedFrom fs (k + 1))"
  by (simp add: matchedFrom_def upt_conv_Cons)

lemma matchedFrom_end: "length fs \<le> k \<Longrightarrow> matchedFrom fs k = []"
  by (simp add: matchedFrom_def)

lemma skipUnmatched_Some:
  "matchedFrom fs k = k' # rest \<Longrightarrow>
     skipUnmatched fs k = Some k' \<and> rest = matchedFrom fs (k' + 1)"
proof (induction fs k rule: skipUnmatched.induct)
  case (1 fs k)
  show ?case
  proof (cases "k < length fs")
    case False
    with "1.prems" show ?thesis
      by (simp add: matchedFrom_end)
  next
    case inside: True
    show ?thesis
    proof (cases "fs ! k")
      case True
      with inside "1.prems" have "k' = k" "rest = matchedFrom fs (k + 1)"
        by (auto simp add: matchedFrom_step)
      with inside True show ?thesis
        by (subst skipUnmatched.simps) simp
    next
      case False
      with inside "1.prems" have "matchedFrom fs (k + 1) = k' # rest"
        by (simp add: matchedFrom_step)
      from "1.IH" [OF inside False this] inside False show ?thesis
        by (subst skipUnmatched.simps) simp
    qed
  qed
qed

lemma mismatches_Cons:
  "mismatches (x # xs) (y # ys) = (if x \<noteq> y then 1 else 0) + mismatches xs ys"
  by (simp add: mismatches_def)

lemma mismatches_Nil: "mismatches [] ys = 0"
  by (simp add: mismatches_def)

lemma mismatches_sym: "mismatches xs ys = mismatches ys xs"
proof (induction xs arbitrary: ys)
  case Nil
  then show ?case by (simp add: mismatches_def)
next
  case (Cons x xs)
  then show ?case
    by (cases ys) (auto simp add: mismatches_Cons, simp add: mismatches_def)
qed

lemma mismatches_le: "mismatches xs ys \<le> length xs"
proof -
  have "mismatches xs ys \<le> length (zip xs ys)"
    unfolding mismatches_def by (rule length_filter_le)
  then show ?thesis by simp
qed

lemma transpositionLoop_value:
  "length (matchedFrom s1M i) \<le> length (matchedFrom s2M k) \<Longrightarrow> length s1M = length str1 \<Longrightarrow>
     transpositionLoop str1 str2 s1M s2M i k t =
       Some (t + mismatches (map ((!) str1) (matchedFrom s1M i))
                            (map ((!) str2) (matchedFrom s2M k)))"
proof (induction str1 str2 s1M s2M i k t rule: transpositionLoop.induct)
  case (1 str1 str2 s1M s2M i k t)
  show ?case
  proof (cases "i < length str1")
    case False
    with "1.prems" have "matchedFrom s1M i = []"
      by (simp add: matchedFrom_end)
    with False show ?thesis
      by (subst transpositionLoop.simps) (simp add: mismatches_Nil)
  next
    case inside: True
    with "1.prems" have i: "i < length s1M" by simp
    show ?thesis
    proof (cases "s1M ! i")
      case False
      with i have same: "matchedFrom s1M i = matchedFrom s1M (i + 1)"
        by (simp add: matchedFrom_step)
      with "1.prems" have "length (matchedFrom s1M (i + 1)) \<le> length (matchedFrom s2M k)"
        by simp
      from "1.IH"(1) [OF inside False this "1.prems"(2)] inside False same show ?thesis
        by (subst transpositionLoop.simps) simp
    next
      case True
      with i have cons: "matchedFrom s1M i = i # matchedFrom s1M (i + 1)"
        by (simp add: matchedFrom_step)
      with "1.prems" obtain k' rest where k': "matchedFrom s2M k = k' # rest"
        by (cases "matchedFrom s2M k") auto
      from skipUnmatched_Some [OF this] have skip: "skipUnmatched s2M k = Some k'"
        and rest: "rest = matchedFrom s2M (k' + 1)"
        by simp_all
      from "1.prems" cons k' rest
      have "length (matchedFrom s1M (i + 1)) \<le> length (matchedFrom s2M (k' + 1))"
        by simp
      from "1.IH"(2) [OF inside _ skip this "1.prems"(2)] True
      have "transpositionLoop str1 str2 s1M s2M (i + 1) (k' + 1)
              (if str1 ! i \<noteq> str2 ! k' then t + 1 else t) =
            Some ((if str1 ! i \<noteq> str2 ! k' then t + 1 else t) +
                  mismatches (map ((!) str1) (matchedFrom s1M (i + 1)))
                             (map ((!) str2) (matchedFrom s2M (k' + 1))))"
        by simp
      with inside True skip cons k' rest show ?thesis
        by (subst transpositionLoop.simps) (simp add: mismatches_Cons)
    qed
  qed
qed

lemma length_matchedFrom: "length (matchedFrom fs 0) = card {j. j < length fs \<and> fs ! j}"
proof -
  have "{i. i < length fs \<and> fs ! ([0..<length fs] ! i)} = {j. j < length fs \<and> fs ! j}"
    by auto
  then show ?thesis
    by (simp add: matchedFrom_def length_filter_conv_card)
qed

lemma firstFit_card:
  assumes ff: "firstFit a b d n M" and tr: "tracks st a b M"
  shows "length (matchedFrom (s1Matches st) 0) = matches st"
    and "length (matchedFrom (s2Matches st) 0) = matches st"
    and "matches st \<le> length a" and "matches st \<le> length b"
proof -
  from ff have p: "pairing M" and c: "\<And>x y. (x, y) \<in> M \<Longrightarrow> x < length a \<and> y < length b"
    unfolding firstFit_def compatible_def by blast+
  from tr have len: "length (s1Matches st) = length a" "length (s2Matches st) = length b"
    and f1: "\<And>x. x < length a \<Longrightarrow> s1Matches st ! x = (x \<in> Domain M)"
    and f2: "\<And>y. y < length b \<Longrightarrow> s2Matches st ! y = (y \<in> Range M)"
    and fin: "finite M" and cnt: "matches st = card M"
    unfolding tracks_def by blast+
  have "inj_on fst M" "inj_on snd M"
    using p unfolding pairing_def inj_on_def by auto
  then have cd: "card (Domain M) = card M" "card (Range M) = card M"
    by (simp_all add: Domain_fst Range_snd card_image)
  have "{j. j < length a \<and> s1Matches st ! j} = Domain M"
    using f1 c by auto
  with len cd cnt show l1: "length (matchedFrom (s1Matches st) 0) = matches st"
    by (simp add: length_matchedFrom)
  have "{j. j < length b \<and> s2Matches st ! j} = Range M"
    using f2 c by auto
  with len cd cnt show l2: "length (matchedFrom (s2Matches st) 0) = matches st"
    by (simp add: length_matchedFrom)
  have "length (matchedFrom (s1Matches st) 0) \<le> length (s1Matches st)"
    unfolding matchedFrom_def using length_filter_le [of _ "[0..<length (s1Matches st)]"] by simp
  with l1 len show "matches st \<le> length a" by simp
  have "length (matchedFrom (s2Matches st) 0) \<le> length (s2Matches st)"
    unfolding matchedFrom_def using length_filter_le [of _ "[0..<length (s2Matches st)]"] by simp
  with l2 len show "matches st \<le> length b" by simp
qed

section \<open>Jaro and Jaro-Winkler: the call returns, bounds, symmetry\<close>

lemma matchDistanceOf_ge: "- 1 \<le> matchDistanceOf a b"
  by (simp add: matchDistanceOf_def)

lemma matchDistanceOf_sym: "matchDistanceOf a b = matchDistanceOf b a"
  by (simp add: matchDistanceOf_def max.commute)

lemma length_toLowerCase: "length (toLowerCase s) = length s"
  by (simp add: toLowerCase_def)

lemma jaroSimilarity_run:
  assumes "s1 \<noteq> s2" "s1 \<noteq> []" "s2 \<noteq> []"
  defines "a \<equiv> toLowerCase s1" and "b \<equiv> toLowerCase s2"
  defines "st \<equiv> matchLoop a b (matchDistanceOf a b) 0 (initialState a b)"
  shows "jaroSimilarity s1 s2 =
           Some (if matches st = 0 then 0
                 else jaroValue (matches st) (transposed a b st) (length s1) (length s2))"
    and "matches st \<le> length s1" and "matches st \<le> length s2"
    and "transposed a b st \<le> matches st"
proof -
  from matchLoop_result [OF matchDistanceOf_ge, of a b] obtain M
    where M: "firstFit a b (matchDistanceOf a b) (length a) M" "tracks st a b M"
    unfolding st_def by blast
  note card = firstFit_card [OF M]
  from card(3,4) show "matches st \<le> length s1" "matches st \<le> length s2"
    by (simp_all add: a_def b_def length_toLowerCase)
  from card(1) mismatches_le [of "map ((!) a) (matchedFrom (s1Matches st) 0)"]
  show "transposed a b st \<le> matches st"
    by (simp add: transposed_def)
  from M(2) have "length (s1Matches st) = length a"
    by (simp add: tracks_def)
  with card(1,2) have
    "transpositionLoop a b (s1Matches st) (s2Matches st) 0 0 0 = Some (transposed a b st)"
    by (simp add: transpositionLoop_value transposed_def)
  with assms(1-3) show "jaroSimilarity s1 s2 =
           Some (if matches st = 0 then 0
                 else jaroValue (matches st) (transposed a b st) (length s1) (length s2))"
    by (simp add: jaroSimilarity_def Let_def a_def b_def st_def matchDistanceOf_def
        initialState_def jaroValue_def length_toLowerCase)
qed

lemma jaroValue_bounds:
  assumes "0 < m" "m \<le> len1" "m \<le> len2" "t \<le> m"
  shows "0 \<le> jaroValue m t len1 len2" and "jaroValue m t len1 len2 \<le> 1"
proof -
  have m: "(0::rat) < of_nat m" using assms by simp
  have l: "(0::rat) < of_nat len1" "(0::rat) < of_nat len2" using assms by simp_all
  have le: "(of_nat m :: rat) \<le> of_nat len1" "(of_nat m :: rat) \<le> of_nat len2"
    "(of_nat t :: rat) \<le> of_nat m"
    using assms by simp_all
  have a: "0 \<le> (of_nat m :: rat) / of_nat len1" "(of_nat m :: rat) / of_nat len1 \<le> 1"
    using l le by simp_all
  have b: "0 \<le> (of_nat m :: rat) / of_nat len2" "(of_nat m :: rat) / of_nat len2 \<le> 1"
    using l le by simp_all
  have t0: "(0::rat) \<le> of_nat t" by simp
  have c: "0 \<le> ((of_nat m :: rat) - of_nat t / 2) / of_nat m"
    "((of_nat m :: rat) - of_nat t / 2) / of_nat m \<le> 1"
    using m le(3) t0 by (simp_all add: field_simps)
  from a b c show "0 \<le> jaroValue m t len1 len2" "jaroValue m t len1 len2 \<le> 1"
    by (simp_all add: jaroValue_def)
qed

lemma jaroSimilarity_bounds: "\<exists>v. jaroSimilarity s1 s2 = Some v \<and> 0 \<le> v \<and> v \<le> 1"
proof (cases "s1 = s2 \<or> s1 = [] \<or> s2 = []")
  case True
  then show ?thesis
    by (auto simp add: jaroSimilarity_def)
next
  case False
  then have ne: "s1 \<noteq> s2" "s1 \<noteq> []" "s2 \<noteq> []" by simp_all
  define st where "st = matchLoop (toLowerCase s1) (toLowerCase s2)
     (matchDistanceOf (toLowerCase s1) (toLowerCase s2)) 0
     (initialState (toLowerCase s1) (toLowerCase s2))"
  note run = jaroSimilarity_run [OF ne, folded st_def]
  show ?thesis
  proof (cases "matches st = 0")
    case True
    with run(1) show ?thesis by simp
  next
    case False
    then have "0 < matches st" by simp
    from jaroValue_bounds [OF this run(2,3,4)] run(1) False show ?thesis by simp
  qed
qed

lemma jaroValue_sym: "jaroValue m t len1 len2 = jaroValue m t len2 len1"
  by (simp add: jaroValue_def add.commute)

lemma jaroSimilarity_sym: "jaroSimilarity s1 s2 = jaroSimilarity s2 s1"
proof (cases "s1 = s2 \<or> s1 = [] \<or> s2 = []")
  case True
  then show ?thesis
    by (auto simp add: jaroSimilarity_def)
next
  case False
  then have ne: "s1 \<noteq> s2" "s1 \<noteq> []" "s2 \<noteq> []" and ne': "s2 \<noteq> s1" by auto
  define a where "a = toLowerCase s1"
  define b where "b = toLowerCase s2"
  define d where "d = matchDistanceOf a b"
  have d': "matchDistanceOf b a = d"
    by (simp add: d_def matchDistanceOf_sym)
  have d_ge: "- 1 \<le> d"
    by (simp add: d_def matchDistanceOf_ge)
  define st where "st = matchLoop a b d 0 (initialState a b)"
  define st' where "st' = matchLoop b a d 0 (initialState b a)"
  from matchLoop_swap [OF d_ge, of b a] have swap:
    "s1Matches st' = s2Matches st" "s2Matches st' = s1Matches st" "matches st' = matches st"
    by (simp_all add: st_def st'_def)
  have t: "transposed b a st' = transposed a b st"
    unfolding transposed_def swap by (rule mismatches_sym)
  have "jaroSimilarity s1 s2 =
      Some (if matches st = 0 then 0
            else jaroValue (matches st) (transposed a b st) (length s1) (length s2))"
    using jaroSimilarity_run(1) [OF ne] by (simp add: a_def b_def d_def st_def)
  moreover have "jaroSimilarity s2 s1 =
      Some (if matches st' = 0 then 0
            else jaroValue (matches st') (transposed b a st') (length s2) (length s1))"
    using jaroSimilarity_run(1) [OF ne' ne(3) ne(2)] d'
    by (simp add: a_def b_def st'_def)
  ultimately show ?thesis
    by (simp add: swap t jaroValue_sym [of _ _ "length s1"])
qed

lemma prefixLoop_sym: "prefixLoop a b n i p = prefixLoop b a n i p"
proof (induction a b n i p rule: prefixLoop.induct)
  case (1 a b n i p)
  show ?case
  proof (cases "i < n \<and> a ! i = b ! i")
    case True
    with "1.IH" have "prefixLoop a b n (i + 1) (p + 1) = prefixLoop b a n (i + 1) (p + 1)"
      by simp
    with True show ?thesis
      by (subst prefixLoop.simps, subst (2) prefixLoop.simps) simp
  next
    case False
    then show ?thesis
      by (subst prefixLoop.simps, subst (2) prefixLoop.simps) auto
  qed
qed

lemma prefixLoop_le: "prefixLoop a b n i p \<le> p + (n - i)"
proof (induction a b n i p rule: prefixLoop.induct)
  case (1 a b n i p)
  show ?case
  proof (cases "i < n \<and> a ! i = b ! i")
    case True
    with "1.IH" have "prefixLoop a b n (i + 1) (p + 1) \<le> p + 1 + (n - (i + 1))"
      by simp
    with True have "prefixLoop a b n (i + 1) (p + 1) \<le> p + (n - i)"
      by linarith
    with True show ?thesis
      by (subst prefixLoop.simps) simp
  next
    case False
    then show ?thesis
      by (subst prefixLoop.simps) auto
  qed
qed

lemma jaroWinkler_bounds:
  assumes "0 \<le> p" "p \<le> 1 / 4"
  shows "\<exists>v. jaroWinkler s1 s2 p = Some v \<and> 0 \<le> v \<and> v \<le> 1"
proof (cases "s1 = s2 \<or> s1 = [] \<or> s2 = []")
  case True
  then show ?thesis
    by (auto simp add: jaroWinkler_def)
next
  case False
  from jaroSimilarity_bounds [of s1 s2] obtain j
    where j: "jaroSimilarity s1 s2 = Some j" "0 \<le> j" "j \<le> 1"
    by blast
  define n where "n = prefixLoop (toLowerCase s1) (toLowerCase s2)
     (min 4 (min (length (toLowerCase s1)) (length (toLowerCase s2)))) 0 0"
  have "n \<le> 4"
    using prefixLoop_le [of "toLowerCase s1" "toLowerCase s2"
        "min 4 (min (length (toLowerCase s1)) (length (toLowerCase s2)))" 0 0]
    by (simp add: n_def)
  then have "(of_nat n :: rat) \<le> 4"
    by (metis of_nat_le_iff of_nat_numeral)
  with assms have c: "0 \<le> of_nat n * p" "of_nat n * p \<le> 1"
  proof -
    show "0 \<le> of_nat n * p" using assms by simp
    have "of_nat n * p \<le> 4 * (1 / 4)"
      using \<open>(of_nat n :: rat) \<le> 4\<close> assms by (intro mult_mono) simp_all
    then show "of_nat n * p \<le> 1" by simp
  qed
  have v: "jaroWinkler s1 s2 p = Some (j + of_nat n * p * (1 - j))"
    using False j(1) by (simp add: jaroWinkler_def Let_def n_def)
  have "0 \<le> of_nat n * p * (1 - j)"
    using c(1) j(3) by simp
  with j(2) have lo: "0 \<le> j + of_nat n * p * (1 - j)" by simp
  have "of_nat n * p * (1 - j) \<le> 1 * (1 - j)"
    using c(2) j(3) by (intro mult_right_mono) simp_all
  then have hi: "j + of_nat n * p * (1 - j) \<le> 1" by simp
  from v lo hi show ?thesis by simp
qed

section \<open>Name and address scores\<close>

lemma defaultP_range: "0 \<le> defaultP" "defaultP \<le> 1 / 4"
  by (simp_all add: defaultP_def)

lemma partSimilarity_bounds: "\<exists>v. partSimilarity a b = Some v \<and> 0 \<le> v \<and> v \<le> 1"
  using jaroWinkler_bounds [OF defaultP_range, of a b]
  by (auto simp add: partSimilarity_def)

lemma Math_round_range: "0 \<le> x \<Longrightarrow> x \<le> 100 \<Longrightarrow> 0 \<le> Math_round x \<and> Math_round x \<le> 100"
  unfolding Math_round_def by linarith

lemma Math_round_mono: "x \<le> y \<Longrightarrow> Math_round x \<le> Math_round y"
  unfolding Math_round_def by (simp add: floor_mono)

lemma Math_round_zero: "Math_round 0 = 0"
  unfolding Math_round_def by linarith


lemma calculateNameSimilarity_parts:
  assumes l: "partSimilarity (normalizeName (nameObj.lastName s)) (normalizeName (nameObj.lastName d)) = Some l"
    and f: "partSimilarity (normalizeName (nameObj.firstName s)) (normalizeName (nameObj.firstName d)) = Some f"
    and m: "partSimilarity (normalizeName (nameObj.middleName s)) (normalizeName (nameObj.middleName d)) = Some m"
  shows "calculateNameSimilarity s d =
     Some (let lastWeight = (if normalizeName (nameObj.lastName s) \<noteq> [] then 1 / 2 else 0);
               firstWeight = (if normalizeName (nameObj.firstName s) \<noteq> [] then 35 / 100 else 0);
               middleWeight = (if normalizeName (nameObj.middleName s) \<noteq> [] \<and>
                                  normalizeName (nameObj.middleName d) \<noteq> [] then 15 / 100 else 0)
           in if lastWeight + firstWeight + middleWeight = 0 then 0
              else Math_round ((l * lastWeight + f * firstWeight + m * middleWeight) /
                     (lastWeight + firstWeight + middleWeight) * 100))"
  using l f m
  by (auto simp add: calculateNameSimilarity_def partSimilarity_def Let_def Math_round_zero
      ac_simps split: if_splits)


lemma weighted_range:
  fixes l f m wl wf wm :: rat
  assumes "0 \<le> l" "l \<le> 1" "0 \<le> f" "f \<le> 1" "0 \<le> m" "m \<le> 1"
    and "0 \<le> wl" "0 \<le> wf" "0 \<le> wm" and pos: "wl + wf + wm \<noteq> 0"
  shows "0 \<le> (l * wl + f * wf + m * wm) / (wl + wf + wm) * 100"
    and "(l * wl + f * wf + m * wm) / (wl + wf + wm) * 100 \<le> 100"
proof -
  from assms have W: "0 < wl + wf + wm" by linarith
  have n0: "0 \<le> l * wl + f * wf + m * wm"
    using assms by simp
  have "l * wl \<le> 1 * wl" "f * wf \<le> 1 * wf" "m * wm \<le> 1 * wm"
    using assms by (intro mult_right_mono; simp)+
  then have n1: "l * wl + f * wf + m * wm \<le> wl + wf + wm" by simp
  from n0 W show "0 \<le> (l * wl + f * wf + m * wm) / (wl + wf + wm) * 100"
    by simp
  from n1 W have "(l * wl + f * wf + m * wm) / (wl + wf + wm) \<le> 1"
    by simp
  then have "(l * wl + f * wf + m * wm) / (wl + wf + wm) * 100 \<le> 1 * 100"
    by (intro mult_right_mono) simp_all
  then show "(l * wl + f * wf + m * wm) / (wl + wf + wm) * 100 \<le> 100"
    by (simp only: mult_1)
qed

lemma calculateNameSimilarity_range:
  "\<exists>n. calculateNameSimilarity s d = Some n \<and> 0 \<le> n \<and> n \<le> 100"
proof -
  from partSimilarity_bounds obtain l
    where l: "partSimilarity (normalizeName (nameObj.lastName s)) (normalizeName (nameObj.lastName d)) = Some l"
      "0 \<le> l" "l \<le> 1"
    by blast
  from partSimilarity_bounds obtain f
    where f: "partSimilarity (normalizeName (nameObj.firstName s)) (normalizeName (nameObj.firstName d)) = Some f"
      "0 \<le> f" "f \<le> 1"
    by blast
  from partSimilarity_bounds obtain m
    where m: "partSimilarity (normalizeName (nameObj.middleName s)) (normalizeName (nameObj.middleName d)) = Some m"
      "0 \<le> m" "m \<le> 1"
    by blast
  define wl :: rat where "wl = (if normalizeName (nameObj.lastName s) \<noteq> [] then 1 / 2 else 0)"
  define wf :: rat where "wf = (if normalizeName (nameObj.firstName s) \<noteq> [] then 35 / 100 else 0)"
  define wm :: rat where "wm = (if normalizeName (nameObj.middleName s) \<noteq> [] \<and>
      normalizeName (nameObj.middleName d) \<noteq> [] then 15 / 100 else 0)"
  have w: "0 \<le> wl" "0 \<le> wf" "0 \<le> wm"
    by (simp_all add: wl_def wf_def wm_def)
  have v: "calculateNameSimilarity s d =
      Some (if wl + wf + wm = 0 then 0
            else Math_round ((l * wl + f * wf + m * wm) / (wl + wf + wm) * 100))"
    unfolding calculateNameSimilarity_parts [OF l(1) f(1) m(1)] wl_def wf_def wm_def Let_def ..
  show ?thesis
  proof (cases "wl + wf + wm = 0")
    case True
    with v show ?thesis by simp
  next
    case False
    from weighted_range [OF l(2,3) f(2,3) m(2,3) w False] v False show ?thesis
      using Math_round_range by simp
  qed
qed

lemma addressField_bounds:
  assumes "0 \<le> w"
  shows "\<exists>v n. addressField a b w = Some (v, n) \<and> 0 \<le> v \<and> v \<le> w"
proof (cases "truthy a \<and> truthy b")
  case True
  from jaroWinkler_bounds [OF defaultP_range, of "normalizeName a" "normalizeName b"]
  obtain v where v: "jaroWinkler (normalizeName a) (normalizeName b) defaultP = Some v"
    "0 \<le> v" "v \<le> 1"
    by blast
  have "v * w \<le> 1 * w"
    using v(3) assms by (intro mult_right_mono) simp_all
  with True v assms show ?thesis
    by (simp add: addressField_def)
next
  case False
  with assms show ?thesis
    by (auto simp add: addressField_def)
qed

lemma calculateAddressSimilarity_range:
  "\<exists>n. calculateAddressSimilarity x y = Some n \<and> 0 \<le> n \<and> n \<le> 100"
proof (cases "\<exists>search sdn. x = Some search \<and> y = Some sdn")
  case False
  then show ?thesis
    by (cases x; cases y) (simp_all add: calculateAddressSimilarity_def)
next
  case True
  then obtain search sdn where xy: "x = Some search" "y = Some sdn" by blast
  from addressField_bounds [of 40] obtain c cn
    where c: "addressField (addressObj.country search) (addressObj.country sdn) 40 = Some (c, cn)"
      "0 \<le> c" "c \<le> 40"
    by force
  from addressField_bounds [of 20] obtain s sn
    where s: "addressField (addressObj.state search) (addressObj.state sdn) 20 = Some (s, sn)"
      "0 \<le> s" "s \<le> 20"
    by force
  from addressField_bounds [of 25] obtain t tn
    where t: "addressField (addressObj.city search) (addressObj.city sdn) 25 = Some (t, tn)"
      "0 \<le> t" "t \<le> 25"
    by force
  from addressField_bounds [of 15] obtain a an
    where a: "addressField (addressObj.address search) (addressObj.address sdn) 15 = Some (a, an)"
      "0 \<le> a" "a \<le> 15"
    by force
  have v: "calculateAddressSimilarity x y =
      Some (if cn + sn + tn + an > 0 then Math_round (c + s + t + a) else 0)"
    by (simp add: calculateAddressSimilarity_def xy c(1) s(1) t(1) a(1))
  have "0 \<le> c + s + t + a" "c + s + t + a \<le> 100"
    using c s t a by simp_all
  from Math_round_range [OF this] v show ?thesis by simp
qed


lemma idLoop_Some: "(\<exists>y. idLoop s xs = Some y) = (s \<in> set (map normalizedSdnId xs))"
  by (induction xs) auto

lemma calculateMatchScore_parts:
  assumes n: "calculateNameSimilarity (searchNameObj params) (sdnNameObj e) = Some n"
    and a: "(if addressGate params
             then calculateAddressSimilarity (Some (searchAddrObj params)) (Some (sdnAddrObj e))
             else Some 0) = Some a"
  shows "\<exists>r. calculateMatchScore newDate params e = Some r \<and>
           nameScore r = n \<and> addressScore r = a \<and>
           dobMatch r = matchDOB newDate (searchParams.dob params) (sdnEntry.dob e) \<and>
           idMatch r = identifierMatches params e \<and>
           score r = min 100 (Math_round (overallFormula n (dobMatch r) a (idMatch r)))"
proof -
  define dm where "dm = (if truthy (searchParams.dob params)
      then matchDOB newDate (searchParams.dob params) (sdnEntry.dob e) else False)"
  define found where "found = (case (idNumber params, ids e) of
          (Some idNumber', Some ids') \<Rightarrow>
            if idNumber' \<noteq> [] then idLoop (digitsOnly idNumber') ids' else None
        | _ \<Rightarrow> None)"
  define ds where "ds = (case found of
      Some id' \<Rightarrow> (if dm then [''Date of birth matches''] else []) @
        [''ID number matches ('' @ type id' @ '')'']
    | None \<Rightarrow> (if dm then [''Date of birth matches''] else []))"
  have dm: "dm = matchDOB newDate (searchParams.dob params) (sdnEntry.dob e)"
    by (auto simp add: dm_def matchDOB_def)
  have im: "(\<exists>y. found = Some y) = identifierMatches params e"
    by (cases "idNumber params"; cases "ids e")
      (simp_all add: found_def identifierMatches_def idLoop_Some)
  have "calculateMatchScore newDate params e =
      Some \<lparr>score = min 100 (Math_round (overallFormula n dm a (found \<noteq> None))),
            nameScore = n, dobMatch = dm, addressScore = a, idMatch = (found \<noteq> None),
            details = ds\<rparr>"
    unfolding dm_def found_def ds_def using n a
    by (simp add: calculateMatchScore_def Let_def addressGate_def overallFormula_def)
  with dm im show ?thesis
    by simp
qed

lemma addressGate_returns:
  "\<exists>a. (if addressGate params
         then calculateAddressSimilarity (Some (searchAddrObj params)) (Some (sdnAddrObj e))
         else Some 0) = Some a \<and> 0 \<le> a \<and> a \<le> 100"
  using calculateAddressSimilarity_range [of "Some (searchAddrObj params)" "Some (sdnAddrObj e)"]
  by auto

lemma overallFormula_nonneg: "0 \<le> n \<Longrightarrow> 0 \<le> a \<Longrightarrow> 0 \<le> overallFormula n d a i"
  by (simp add: overallFormula_def)

lemma calculateMatchScore_returns:
  "\<exists>r. calculateMatchScore newDate params e = Some r \<and>
       0 \<le> nameScore r \<and> nameScore r \<le> 100 \<and>
       0 \<le> addressScore r \<and> addressScore r \<le> 100 \<and>
       0 \<le> score r \<and> score r \<le> 100"
proof -
  from calculateNameSimilarity_range obtain n
    where n: "calculateNameSimilarity (searchNameObj params) (sdnNameObj e) = Some n"
      "0 \<le> n" "n \<le> 100"
    by blast
  from addressGate_returns obtain a
    where a: "(if addressGate params
         then calculateAddressSimilarity (Some (searchAddrObj params)) (Some (sdnAddrObj e))
         else Some 0) = Some a" "0 \<le> a" "a \<le> 100"
    by blast
  from calculateMatchScore_parts [OF n(1) a(1)] obtain r
    where r: "calculateMatchScore newDate params e = Some r" "nameScore r = n"
      "addressScore r = a"
      "score r = min 100 (Math_round (overallFormula n (dobMatch r) a (idMatch r)))"
    by blast
  from overallFormula_nonneg [OF n(2) a(2)]
  have "Math_round 0 \<le> Math_round (overallFormula n (dobMatch r) a (idMatch r))"
    by (rule Math_round_mono)
  then have "0 \<le> Math_round (overallFormula n (dobMatch r) a (idMatch r))"
    by (simp add: Math_round_zero)
  with r n a show ?thesis by simp
qed

lemma truncate_withEntry: "matchResult.truncate (withEntry e r) = r"
  by (simp add: withEntry_def matchResult.truncate_def)

lemma score_withEntry: "score (withEntry e r) = score r"
  by (simp add: withEntry_def)

lemma entry_withEntry: "entry (withEntry e r) = e"
  by (simp add: withEntry_def)

lemma searchLoop_value:
  "\<exists>all. list_all2 (scoredAs newDate params) es all \<and>
     (\<forall>t acc. searchLoop newDate params es t acc =
        Some (acc @ filter (\<lambda>m. t \<le> of_int (score m)) all))"
proof (induction es)
  case Nil
  then show ?case by simp
next
  case (Cons e es)
  then obtain all where all: "list_all2 (scoredAs newDate params) es all"
    "\<And>t acc. searchLoop newDate params es t acc =
        Some (acc @ filter (\<lambda>m. t \<le> of_int (score m)) all)"
    by blast
  from calculateMatchScore_returns obtain r
    where r: "calculateMatchScore newDate params e = Some r"
    by blast
  have "scoredAs newDate params e (withEntry e r)"
    by (simp add: scoredAs_def r truncate_withEntry entry_withEntry)
  with all(1) have "list_all2 (scoredAs newDate params) (e # es) (withEntry e r # all)"
    by simp
  moreover have "searchLoop newDate params (e # es) t acc =
      Some (acc @ filter (\<lambda>m. t \<le> of_int (score m)) (withEntry e r # all))" for t acc
    by (simp add: r all(2) score_withEntry)
  ultimately show ?case by blast
qed

lemma searchSDN_value:
  "\<exists>all. list_all2 (scoredAs newDate params) es all \<and>
     (\<forall>t. searchSDN newDate params es t =
        Some (sort_key (\<lambda>m. - score m) (filter (\<lambda>m. t \<le> of_int (score m)) all)))"
proof -
  from searchLoop_value obtain all where all: "list_all2 (scoredAs newDate params) es all"
    "\<And>t acc. searchLoop newDate params es t acc =
        Some (acc @ filter (\<lambda>m. t \<le> of_int (score m)) all)"
    by blast
  have "searchSDN newDate params es t =
      Some (sort_key (\<lambda>m. - score m) (filter (\<lambda>m. t \<le> of_int (score m)) all))" for t
    by (simp add: searchSDN_def all(2))
  with all(1) show ?thesis by blast
qed

lemma map_entry_filter:
  assumes "list_all2 (scoredAs newDate params) es all"
  shows "map entry (filter (\<lambda>m. P (score m)) all) =
         filter (\<lambda>e. \<exists>r. calculateMatchScore newDate params e = Some r \<and> P (score r)) es"
  using assms
proof (induction rule: list_all2_induct)
  case Nil
  then show ?case by simp
next
  case (Cons e es m all)
  from Cons.hyps(1) have "calculateMatchScore newDate params e = Some (matchResult.truncate m)"
    "entry m = e"
    by (simp_all add: scoredAs_def)
  moreover have "score (matchResult.truncate m) = score m"
    by (simp add: matchResult.truncate_def)
  ultimately have "(\<exists>r. calculateMatchScore newDate params e = Some r \<and> P (score r)) = P (score m)"
    "entry m = e"
    by simp_all
  with Cons.IH show ?case by simp
qed

section \<open>The similarity function\<close>

text \<open>
  C8. The Jaro-Winkler similarity of two strings does not depend on their order, for
  every scaling factor.
\<close>

theorem jaroWinkler_symmetric: "jaroWinkler s1 s2 p = jaroWinkler s2 s1 p"
proof (cases "s1 = s2 \<or> s1 = [] \<or> s2 = []")
  case True
  then show ?thesis
    by (auto simp add: jaroWinkler_def)
next
  case False
  then show ?thesis
    by (simp add: jaroWinkler_def Let_def jaroSimilarity_sym [of s1 s2]
        prefixLoop_sym [of "toLowerCase s1"] min.commute eq_commute [of s1 s2])
qed

theorem jaroWinkler_symmetric_witness:
  "jaroWinkler ''Mohammed'' ''mohamed'' defaultP = Some (39 / 40) \<and>
   jaroWinkler ''mohamed'' ''Mohammed'' defaultP = Some (39 / 40)"
proof -
  have "jaroWinkler ''Mohammed'' ''mohamed'' defaultP = Some (39 / 40)"
    by code_simp
  with jaroWinkler_symmetric [of "''mohamed''" "''Mohammed''" defaultP] show ?thesis
    by simp
qed

lemma mismatches_same: "mismatches xs xs = 0"
  by (induction xs) (simp_all add: mismatches_def)

lemma jaroValue_all: "0 < n \<Longrightarrow> jaroValue n 0 n n = 1"
  by (simp add: jaroValue_def)

lemma jaroSimilarity_case_fold:
  assumes same: "toLowerCase s1 = toLowerCase s2" and len: "length s1 \<noteq> 1"
  shows "jaroSimilarity s1 s2 = Some 1"
proof (cases "s1 = s2")
  case True
  then show ?thesis by (simp add: jaroSimilarity_def)
next
  case False
  define a where "a = toLowerCase s1"
  define n where "n = length a"
  have "length (toLowerCase s1) = length s1" "length (toLowerCase s2) = length s2"
    by (simp_all add: length_toLowerCase)
  with same have n1: "length s1 = n" "length s2 = n"
    by (simp_all add: n_def a_def)
  with False have "n \<noteq> 0" by auto
  with len n1 have n: "2 \<le> n" by simp
  then have ne: "s1 \<noteq> []" "s2 \<noteq> []" using n1 by auto
  define d where "d = matchDistanceOf a a"
  from n have d: "0 \<le> d"
    by (simp add: d_def matchDistanceOf_def n_def)
  define st where "st = matchLoop a a d 0 (initialState a a)"
  define I where "I = {(i, i) | i. i < n}"
  have "firstFit a a d n I"
  proof -
    have "pairing I"
      by (auto simp add: pairing_def I_def)
    moreover have "compatible a a d i j \<and> i < n" if "(i, j) \<in> I" for i j
      using that d by (auto simp add: I_def compatible_def n_def)
    moreover have "(i, j) \<in> I \<or> (\<exists>j'<j. (i, j') \<in> I) \<or> (\<exists>i'<i. (i', j) \<in> I)"
      if "compatible a a d i j" for i j
    proof -
      from that have ij: "i < n" "j < n" by (simp_all add: compatible_def n_def)
      consider "i = j" | "i < j" | "j < i" by linarith
      then show ?thesis
      proof cases
        case 1
        with ij show ?thesis by (simp add: I_def)
      next
        case 2
        with ij have "(i, i) \<in> I" by (simp add: I_def)
        with 2 show ?thesis by blast
      next
        case 3
        with ij have "(j, j) \<in> I" by (simp add: I_def)
        with 3 show ?thesis by blast
      qed
    qed
    ultimately show ?thesis
      unfolding firstFit_def by blast
  qed
  moreover from matchLoop_result [of d a a] d obtain M
    where M: "firstFit a a d (length a) M" "tracks st a a M"
    unfolding st_def by auto
  ultimately have "M = I"
    using firstFit_unique [of a a d n M I] by (simp add: n_def)
  with M(2) have tr: "tracks st a a I" by simp
  have fin: "finite I" "card I = n"
  proof -
    have "I = (\<lambda>i. (i, i)) ` {..<n}"
      by (auto simp add: I_def)
    moreover have "inj_on (\<lambda>i. (i, i)) {..<n}"
      by (simp add: inj_on_def)
    ultimately show "finite I" "card I = n"
      by (simp_all add: card_image)
  qed
  from tr fin have m: "matches st = n"
    by (simp add: tracks_def)
  have dom: "Domain I = {..<n}" "Range I = {..<n}"
    by (auto simp add: I_def)
  from tr have "s1Matches st = s2Matches st"
    unfolding tracks_def dom by (auto simp add: n_def intro!: nth_equalityI)
  then have t: "transposed a a st = 0"
    by (simp add: transposed_def mismatches_same)
  from same have b: "toLowerCase s2 = a" by (simp add: a_def)
  have "jaroSimilarity s1 s2 =
      Some (if matches st = 0 then 0
            else jaroValue (matches st) (transposed a a st) (length s1) (length s2))"
    using jaroSimilarity_run(1) [OF False ne]
    unfolding b a_def [symmetric] d_def [symmetric] st_def [symmetric] .
  with n m t n1 show ?thesis
    by (simp add: jaroValue_all)
qed

text \<open>
  C5. Two strings that are the same after lower-casing, and that are not one character
  long, have base similarity 1 and boosted similarity 1. Two strings one character
  long that differ in case only, as \<^verbatim>\<open>A\<close> and \<^verbatim>\<open>a\<close>, are not the same string and have
  the match distance \<open>-1\<close>: the window of the matching loop is empty, the base
  similarity is 0 and the boosted one \<open>0.1\<close>.
\<close>

theorem jaro_case_fold:
  "(toLowerCase s1 = toLowerCase s2 \<and> length s1 \<noteq> 1 \<longrightarrow>
      jaroSimilarity s1 s2 = Some 1 \<and> jaroWinkler s1 s2 p = Some 1) \<and>
   toLowerCase ''A'' = toLowerCase ''a'' \<and>
   jaroSimilarity ''A'' ''a'' = Some 0 \<and> jaroWinkler ''A'' ''a'' defaultP = Some (1 / 10)"
proof -
  have "jaroSimilarity s1 s2 = Some 1 \<and> jaroWinkler s1 s2 p = Some 1"
    if "toLowerCase s1 = toLowerCase s2" "length s1 \<noteq> 1"
  proof -
    from jaroSimilarity_case_fold [OF that] have j: "jaroSimilarity s1 s2 = Some 1" .
    from that(1) have "length s1 = length s2"
      by (metis length_toLowerCase)
    then have "s1 = [] \<longleftrightarrow> s2 = []"
      by auto
    with j have "jaroWinkler s1 s2 p = Some 1"
      by (auto simp add: jaroWinkler_def)
    with j show ?thesis by simp
  qed
  moreover have "toLowerCase ''A'' = toLowerCase ''a''" "jaroSimilarity ''A'' ''a'' = Some 0"
    "jaroWinkler ''A'' ''a'' defaultP = Some (1 / 10)"
    by code_simp+
  ultimately show ?thesis by blast
qed

theorem jaro_case_fold_witness:
  "toLowerCase ''McDonald'' = toLowerCase ''MCDONALD'' \<and> length ''McDonald'' \<noteq> 1 \<and>
   jaroSimilarity ''McDonald'' ''MCDONALD'' = Some 1 \<and>
   jaroWinkler ''McDonald'' ''MCDONALD'' defaultP = Some 1"
proof -
  have "toLowerCase ''McDonald'' = toLowerCase ''MCDONALD''"
    by code_simp
  with jaro_case_fold [of "''McDonald''" "''MCDONALD''" defaultP] show ?thesis
    by simp
qed

text \<open>
  C7, as the code has it. The Jaro-Winkler similarity with the default scaling factor
  lies between 0 and 1; it is 0 when one string is empty and the other is not; the
  name score, the address score and the overall score lie between 0 and 100. Every one
  of these calls returns.
\<close>

theorem scores_bounded:
  "(\<exists>v. jaroWinkler s1 s2 defaultP = Some v \<and> 0 \<le> v \<and> v \<le> 1) \<and>
   (s1 \<noteq> [] \<longrightarrow> jaroWinkler s1 [] defaultP = Some 0 \<and> jaroWinkler [] s1 defaultP = Some 0) \<and>
   (\<exists>n. calculateNameSimilarity searchName sdnName = Some n \<and> 0 \<le> n \<and> n \<le> 100) \<and>
   (\<exists>n. calculateAddressSimilarity searchAddr sdnAddr = Some n \<and> 0 \<le> n \<and> n \<le> 100) \<and>
   (\<exists>r. calculateMatchScore newDate params e = Some r \<and>
        0 \<le> nameScore r \<and> nameScore r \<le> 100 \<and>
        0 \<le> addressScore r \<and> addressScore r \<le> 100 \<and>
        0 \<le> score r \<and> score r \<le> 100)"
proof -
  have "s1 \<noteq> [] \<longrightarrow> jaroWinkler s1 [] defaultP = Some 0 \<and> jaroWinkler [] s1 defaultP = Some 0"
    by (auto simp add: jaroWinkler_def)
  with jaroWinkler_bounds [OF defaultP_range, of s1 s2]
    calculateNameSimilarity_range [of searchName sdnName]
    calculateAddressSimilarity_range [of searchAddr sdnAddr]
    calculateMatchScore_returns [of newDate params e]
  show ?thesis by blast
qed

theorem scores_bounded_witness:
  "jaroWinkler ''a'' [] defaultP = Some 0 \<and> jaroWinkler [] ''a'' defaultP = Some 0 \<and>
   jaroWinkler ''a'' ''ab'' defaultP = Some (17 / 20) \<and>
   (\<exists>r. calculateMatchScore newDateInvalid johnSmith jonSmith = Some r \<and>
        0 \<le> score r \<and> score r \<le> 100)"
proof -
  have v: "jaroWinkler ''a'' ''ab'' defaultP = Some (17 / 20)"
    by code_simp
  have ne: "''a'' \<noteq> []"
    by simp
  from scores_bounded [of "''a''" "''ab''" "searchNameObj johnSmith" "sdnNameObj jonSmith"
      "Some (searchAddrObj johnSmith)" "Some (sdnAddrObj jonSmith)"
      newDateInvalid johnSmith jonSmith] ne
  have "jaroWinkler ''a'' [] defaultP = Some 0 \<and> jaroWinkler [] ''a'' defaultP = Some 0"
    and "\<exists>r. calculateMatchScore newDateInvalid johnSmith jonSmith = Some r \<and>
        0 \<le> score r \<and> score r \<le> 100"
    by blast+
  with v show ?thesis by simp
qed

text \<open>Two empty strings are the same string, and their similarity is 1, not 0.\<close>

theorem jaroWinkler_empty_counterexample:
  "jaroWinkler [] [] defaultP = Some 1 \<and> jaroWinkler [] [] defaultP \<noteq> Some 0"
  by (simp add: jaroWinkler_def)

section \<open>The name score\<close>






section \<open>The date-of-birth comparator\<close>







section \<open>The match scorer\<close>



text \<open>
  C10. When the query has no country, no city and no state, the address score is 0 and
  the overall score is that of the name, the date of birth and the identifier alone;
  the street address of the query has no effect on the result, whatever it is.
\<close>

theorem calculateMatchScore_no_address:
  assumes "\<not> truthy (searchParams.country params)" "\<not> truthy (searchParams.city params)"
    "\<not> truthy (searchParams.state params)"
  shows "\<exists>r. calculateMatchScore newDate params e = Some r \<and> addressScore r = 0 \<and>
           score r = min 100 (Math_round (of_int (nameScore r) * (6 / 10) +
                       (if dobMatch r then 20 else 0) + (if idMatch r then 5 else 0))) \<and>
           (\<forall>street. calculateMatchScore newDate (params\<lparr>searchParams.address := street\<rparr>) e =
                      Some r)"
proof -
  from calculateNameSimilarity_range obtain n
    where n: "calculateNameSimilarity (searchNameObj params) (sdnNameObj e) = Some n"
    by blast
  from assms have gate: "\<not> addressGate params"
    by (simp add: addressGate_def)
  then have a: "(if addressGate params
         then calculateAddressSimilarity (Some (searchAddrObj params)) (Some (sdnAddrObj e))
         else Some 0) = Some 0"
    by simp
  from calculateMatchScore_parts [OF n a] obtain r
    where r: "calculateMatchScore newDate params e = Some r" "nameScore r = n"
      "addressScore r = 0"
      "score r = min 100 (Math_round (overallFormula n (dobMatch r) 0 (idMatch r)))"
    by blast
  have "calculateMatchScore newDate (params\<lparr>searchParams.address := street\<rparr>) e =
      calculateMatchScore newDate params e" for street
    using assms by (simp add: calculateMatchScore_def searchNameObj_def)
  with r show ?thesis
    by (simp add: overallFormula_def)
qed

theorem calculateMatchScore_no_address_witness:
  "\<not> truthy (searchParams.country johnSmithStreetOnly) \<and>
   \<not> truthy (searchParams.city johnSmithStreetOnly) \<and>
   \<not> truthy (searchParams.state johnSmithStreetOnly) \<and>
   searchParams.address johnSmithStreetOnly = sdnEntry.address jonSmith \<and>
   truthy (searchParams.address johnSmithStreetOnly) \<and>
   (\<exists>r. calculateMatchScore newDateInvalid johnSmithStreetOnly jonSmith = Some r \<and>
        addressScore r = 0 \<and> score r = 83 \<and>
        calculateMatchScore newDateInvalid
          (johnSmithStreetOnly\<lparr>searchParams.address := None\<rparr>) jonSmith = Some r)"
proof -
  have h: "\<not> truthy (searchParams.country johnSmithStreetOnly)"
    "\<not> truthy (searchParams.city johnSmithStreetOnly)"
    "\<not> truthy (searchParams.state johnSmithStreetOnly)"
    by (simp_all add: johnSmithStreetOnly_def johnSmith_def truthy_def)
  have s: "searchParams.address johnSmithStreetOnly = sdnEntry.address jonSmith"
    "truthy (searchParams.address johnSmithStreetOnly)"
    by (simp_all add: johnSmithStreetOnly_def johnSmith_def jonSmith_def truthy_def)
  have v: "map_option score (calculateMatchScore newDateInvalid johnSmithStreetOnly jonSmith) =
      Some 83"
    by code_simp
  from calculateMatchScore_no_address [OF h, of newDateInvalid jonSmith] v h s show ?thesis
    by auto
qed

section \<open>The search\<close>

text \<open>
  C2. The search returns a list; every match in it has a score at or above the
  threshold, and is an entry of the collection with the result the scorer computes for
  it. At a threshold that is not lower, the list returned is the part of this list at
  or above that threshold: a subset.
\<close>

theorem searchSDN_threshold:
  "\<exists>ms. searchSDN newDate params sdnEntries t1 = Some ms \<and>
      (\<forall>m \<in> set ms. t1 \<le> of_int (score m) \<and> entry m \<in> set sdnEntries \<and>
          calculateMatchScore newDate params (entry m) = Some (matchResult.truncate m)) \<and>
      (t1 \<le> t2 \<longrightarrow>
         (\<exists>ms'. searchSDN newDate params sdnEntries t2 = Some ms' \<and>
            ms' = filter (\<lambda>m. t2 \<le> of_int (score m)) ms \<and> set ms' \<subseteq> set ms))"
proof -
  from searchSDN_value obtain all
    where all: "list_all2 (scoredAs newDate params) sdnEntries all"
      and v: "\<And>t. searchSDN newDate params sdnEntries t =
        Some (sort_key (\<lambda>m. - score m) (filter (\<lambda>m. t \<le> of_int (score m)) all))"
    by blast
  define ms where "ms = sort_key (\<lambda>m. - score m) (filter (\<lambda>m. t1 \<le> of_int (score m)) all)"
  have mem: "t1 \<le> of_int (score m) \<and> entry m \<in> set sdnEntries \<and>
      calculateMatchScore newDate params (entry m) = Some (matchResult.truncate m)"
    if "m \<in> set ms" for m
  proof -
    from that have m: "m \<in> set all" "t1 \<le> of_int (score m)"
      by (simp_all add: ms_def)
    from m(1) obtain i where i: "i < length all" "all ! i = m"
      by (auto simp add: in_set_conv_nth)
    with all have "scoredAs newDate params (sdnEntries ! i) m" "i < length sdnEntries"
      by (auto simp add: list_all2_conv_all_nth)
    with m(2) show ?thesis
      by (auto simp add: scoredAs_def)
  qed
  have narrow: "sort_key (\<lambda>m. - score m) (filter (\<lambda>m. t2 \<le> of_int (score m)) all) =
      filter (\<lambda>m. t2 \<le> of_int (score m)) ms" if "t1 \<le> t2"
  proof -
    have "filter (\<lambda>m. t2 \<le> of_int (score m)) (filter (\<lambda>m. t1 \<le> of_int (score m)) all) =
        filter (\<lambda>m. t2 \<le> of_int (score m)) all"
      using that by (auto intro!: filter_cong)
    then show ?thesis
      by (simp only: ms_def filter_sort)
  qed
  have "searchSDN newDate params sdnEntries t1 = Some ms"
    by (simp add: v ms_def)
  moreover have "\<exists>ms'. searchSDN newDate params sdnEntries t2 = Some ms' \<and>
      ms' = filter (\<lambda>m. t2 \<le> of_int (score m)) ms \<and> set ms' \<subseteq> set ms" if "t1 \<le> t2"
    using narrow [OF that] by (simp add: v)
  ultimately show ?thesis
    using mem by blast
qed

theorem searchSDN_threshold_witness:
  "\<exists>ms ms'. searchSDN newDateInvalid johnSmith [aliceJones, jonSmith, johnSmyth] 85 = Some ms \<and>
      map score ms = [95, 93] \<and> list_all (\<lambda>m. 85 \<le> score m) ms \<and>
      searchSDN newDateInvalid johnSmith [aliceJones, jonSmith, johnSmyth] 95 = Some ms' \<and>
      map score ms' = [95] \<and> set ms' \<subseteq> set ms"
proof -
  have le: "(85::rat) \<le> 95" by simp
  have a: "map_option (map score)
      (searchSDN newDateInvalid johnSmith [aliceJones, jonSmith, johnSmyth] 85) = Some [95, 93]"
    by code_simp
  have b: "map_option (map score)
      (searchSDN newDateInvalid johnSmith [aliceJones, jonSmith, johnSmyth] 95) = Some [95]"
    by code_simp
  from searchSDN_threshold [of newDateInvalid johnSmith "[aliceJones, jonSmith, johnSmyth]" 85 95]
    le a b show ?thesis
    by auto
qed

text \<open>
  C6. In the list returned the scores never increase, and for every score the matches
  with that score come in the order in which their entries stand in the collection.
\<close>

theorem searchSDN_ordered:
  "\<exists>ms. searchSDN newDate params sdnEntries threshold = Some ms \<and>
      sorted_wrt (\<lambda>a b. score a \<ge> score b) ms \<and>
      (\<forall>k. map entry (filter (\<lambda>m. score m = k) ms) =
           filter (\<lambda>e. \<exists>r. calculateMatchScore newDate params e = Some r \<and>
                         threshold \<le> of_int (score r) \<and> score r = k) sdnEntries)"
proof -
  from searchSDN_value obtain all
    where all: "list_all2 (scoredAs newDate params) sdnEntries all"
      and v: "\<And>t. searchSDN newDate params sdnEntries t =
        Some (sort_key (\<lambda>m. - score m) (filter (\<lambda>m. t \<le> of_int (score m)) all))"
    by blast
  define ms where
    "ms = sort_key (\<lambda>m. - score m) (filter (\<lambda>m. threshold \<le> of_int (score m)) all)"
  have "sorted (map (\<lambda>m. - score m) ms)"
    unfolding ms_def by (rule sorted_sort_key)
  then have order: "sorted_wrt (\<lambda>a b. score a \<ge> score b) ms"
    by (simp add: sorted_map)
  have stable: "map entry (filter (\<lambda>m. score m = k) ms) =
      filter (\<lambda>e. \<exists>r. calculateMatchScore newDate params e = Some r \<and>
                    threshold \<le> of_int (score r) \<and> score r = k) sdnEntries" for k
  proof -
    have "filter (\<lambda>m. score m = k) ms = filter (\<lambda>m. - score m = - k) ms"
      by simp
    also have "\<dots> = filter (\<lambda>m. - score m = - k)
        (filter (\<lambda>m. threshold \<le> of_int (score m)) all)"
      unfolding ms_def by (rule sort_key_stable)
    also have "\<dots> = filter (\<lambda>m. threshold \<le> of_int (score m) \<and> score m = k) all"
      by (auto intro!: filter_cong)
    finally show ?thesis
      using map_entry_filter [OF all, of "\<lambda>s. threshold \<le> of_int s \<and> s = k"]
      by simp
  qed
  have "searchSDN newDate params sdnEntries threshold = Some ms"
    by (simp add: v ms_def)
  with order stable show ?thesis by blast
qed

theorem searchSDN_ordered_witness:
  "\<exists>ms. searchSDN newDateInvalid johnSmith
          [aliceJones, johnSmyth, jonSmith, jonSmith\<lparr>sdnEntry.middleName := Some ''X''\<rparr>] 85 =
        Some ms \<and>
      map score ms = [95, 95, 93] \<and>
      map entry ms = [jonSmith, jonSmith\<lparr>sdnEntry.middleName := Some ''X''\<rparr>, johnSmyth] \<and>
      sorted_wrt (\<lambda>a b. score a \<ge> score b) ms"
proof -
  have "map_option (map (\<lambda>m. (score m, entry m)))
      (searchSDN newDateInvalid johnSmith
         [aliceJones, johnSmyth, jonSmith, jonSmith\<lparr>sdnEntry.middleName := Some ''X''\<rparr>] 85) =
      Some [(95, jonSmith), (95, jonSmith\<lparr>sdnEntry.middleName := Some ''X''\<rparr>), (93, johnSmyth)]"
    by code_simp
  with searchSDN_ordered [of newDateInvalid johnSmith
      "[aliceJones, johnSmyth, jonSmith, jonSmith\<lparr>sdnEntry.middleName := Some ''X''\<rparr>]" 85]
  show ?thesis
    by auto
qed

end
